theory Spec2Isabelle
  imports Main
begin

section \<open>Pollard's p-1 factor search (maths/pollards\_p\_minus\_1.py)\<close>

text \<open>
  The module has one public function, \<^verbatim>\<open>pollard_rho(num, B, step=1, attempts=3)\<close>, with a
  nested generator \<^verbatim>\<open>generate_primes(limit)\<close>. Python integers are unbounded, so every
  number is an \<^typ>\<open>int\<close>.
\<close>

subsection \<open>Errors\<close>

text \<open>The only \<^verbatim>\<open>raise\<close> of the function is the \<^verbatim>\<open>ValueError\<close> for a negative input.\<close>

datatype error = ValueError

subsection \<open>The prime generator\<close>

text \<open>
  \<^verbatim>\<open>
  def generate_primes(limit):
      sieve = iter(range(2,limit+1))
      while True:
          try:
              prime = next(sieve)
          except StopIteration:
              break
          yield prime
          not_multiple_of_prime = lambda x, p=prime: x % p != 0
          sieve = filter(not_multiple_of_prime, sieve)
  \<close>
  The iterator \<^verbatim>\<open>sieve\<close> is modelled by the list of the values it still has to deliver.
  One round of the loop takes its head, yields it and wraps the rest in a filter; the
  sequence of yielded values is the result. \<^verbatim>\<open>range(2, limit+1)\<close> is \<open>[2..limit]\<close>.
\<close>

function sieve :: "int list \<Rightarrow> int list" where
  "sieve [] = []"
| "sieve (prime # rest) = prime # sieve (filter (\<lambda>x. x mod prime \<noteq> 0) rest)"
  by pat_completeness auto
termination
  by (relation "measure length") (auto simp: less_Suc_eq_le)

definition generate_primes :: "int \<Rightarrow> int list" where
  "generate_primes limit = sieve [2..limit]"

subsection \<open>One attempt\<close>

text \<open>
  \<^verbatim>\<open>
  for prime in generate_primes(B):
      s = int(log(B, prime))
      r = pow(prime, s)
      guess = pow(guess, r, num)
      divisor = gcd(guess - 1, num)
      if divisor != 1 and divisor != num:
          return divisor
  \<close>
  \<^verbatim>\<open>log\<close> is \<^verbatim>\<open>math.log\<close>: the quotient of two double-precision logarithms. Double
  arithmetic is outside this development, so the truncated value \<^verbatim>\<open>int(log(B, prime))\<close> is
  a parameter \<open>ilog B prime\<close> of the model, and every statement below holds whatever it
  returns. It is a natural number: the loop only runs for \<open>2 \<le> prime \<le> B\<close>, where both
  logarithms are positive.

  With a non-negative exponent and a positive modulus, Python's three-argument \<^verbatim>\<open>pow\<close>
  is the power reduced by \<open>mod\<close> (the result has the sign of the modulus, as in HOL), and
  \<^verbatim>\<open>math.gcd\<close> is the non-negative greatest common divisor, as \<^const>\<open>gcd\<close> on \<^typ>\<open>int\<close>.
\<close>

definition fold_in :: "(int \<Rightarrow> int \<Rightarrow> nat) \<Rightarrow> int \<Rightarrow> int \<Rightarrow> int \<Rightarrow> int \<Rightarrow> int" where
  "fold_in ilog num B prime guess =
     (let s = ilog B prime;
          r = prime ^ s
      in guess ^ nat r mod num)"

fun attempt :: "(int \<Rightarrow> int \<Rightarrow> nat) \<Rightarrow> int \<Rightarrow> int \<Rightarrow> int list \<Rightarrow> int \<Rightarrow> int option" where
  "attempt ilog num B [] guess = None"
| "attempt ilog num B (prime # primes) guess =
     (let guess' = fold_in ilog num B prime guess;
          divisor = gcd (guess' - 1) num
      in if divisor \<noteq> 1 \<and> divisor \<noteq> num then Some divisor
         else attempt ilog num B primes guess')"

text \<open>
  The values the variable \<^verbatim>\<open>guess\<close> takes after each assignment
  \<^verbatim>\<open>guess = pow(guess, r, num)\<close> of one attempt, in order; the loop stops at the
  \<^verbatim>\<open>return\<close>.
\<close>

fun guesses :: "(int \<Rightarrow> int \<Rightarrow> nat) \<Rightarrow> int \<Rightarrow> int \<Rightarrow> int list \<Rightarrow> int \<Rightarrow> int list" where
  "guesses ilog num B [] guess = []"
| "guesses ilog num B (prime # primes) guess =
     (let guess' = fold_in ilog num B prime guess;
          divisor = gcd (guess' - 1) num
      in if divisor \<noteq> 1 \<and> divisor \<noteq> num then [guess']
         else guess' # guesses ilog num B primes guess')"

subsection \<open>The attempts\<close>

text \<open>
  \<^verbatim>\<open>
  for _ in range(attempts):
      guess = randint(2,num)
      for prime in generate_primes(B): ...
  return None
  \<close>
  The random source is the sequence \<open>randint\<close> of the values that successive calls
  \<^verbatim>\<open>randint(2,num)\<close> return; the state threaded through the loop is the number of calls
  made so far. \<open>search\<close> runs \<open>n\<close> rounds from call number \<open>k\<close> and returns the result with
  the new call count.
\<close>

fun search :: "(int \<Rightarrow> int \<Rightarrow> nat) \<Rightarrow> (nat \<Rightarrow> int) \<Rightarrow> int \<Rightarrow> int \<Rightarrow> nat \<Rightarrow> nat \<Rightarrow> int option \<times> nat" where
  "search ilog randint num B 0 k = (None, k)"
| "search ilog randint num B (Suc n) k =
     (let guess = randint k in
      case attempt ilog num B (generate_primes B) guess of
        Some divisor \<Rightarrow> (Some divisor, Suc k)
      | None \<Rightarrow> search ilog randint num B n (Suc k))"

subsection \<open>The public function\<close>

text \<open>
  \<^verbatim>\<open>
  def pollard_rho(num, B, step=1, attempts=3):
      if num < 0:
          raise ValueError("The input value must be a natural number (positive)")
      if num < 2:
          return None
      ...
  \<close>
  \<^verbatim>\<open>range(attempts)\<close> is empty for \<open>attempts \<le> 0\<close>, hence \<open>nat attempts\<close> rounds. The result is
  paired with the number of \<^verbatim>\<open>randint\<close> calls made. Every attempt starts with such a call,
  and \<^verbatim>\<open>generate_primes\<close> is only called inside an attempt, so a count of 0 also says that
  no attempt ran and no prime was generated.
\<close>

definition pollard_rho ::
  "(int \<Rightarrow> int \<Rightarrow> nat) \<Rightarrow> (nat \<Rightarrow> int) \<Rightarrow> int \<Rightarrow> int \<Rightarrow> int \<Rightarrow> int \<Rightarrow> (error + int option) \<times> nat" where
  "pollard_rho ilog randint num B step attempts =
     (if num < 0 then (Inl ValueError, 0)
      else if num < 2 then (Inr None, 0)
      else case search ilog randint num B (nat attempts) 0 of
             (found, calls) \<Rightarrow> (Inr found, calls))"

subsection \<open>Notions used to state the properties\<close>

text \<open>Primality by trial division, so that it can be evaluated on numerals.\<close>

definition is_prime :: "int \<Rightarrow> bool" where
  "is_prime p = (2 \<le> p \<and> (\<forall>d\<in>set [2..p - 1]. p mod d \<noteq> 0))"

text \<open>
  The state of the iterator \<^verbatim>\<open>sieve\<close> at the top of each round of \<^verbatim>\<open>generate_primes\<close>:
  strictly ascending, no value below 2, and closed under prime divisors.
\<close>

definition sieve_inv :: "int list \<Rightarrow> bool" where
  "sieve_inv xs \<longleftrightarrow>
     sorted_wrt (<) xs \<and> (\<forall>x\<in>set xs. 2 \<le> x) \<and>
     (\<forall>x\<in>set xs. \<forall>q. is_prime q \<and> q dvd x \<longrightarrow> q \<in> set xs)"

text \<open>
  A composite number has a divisor strictly between 1 and itself; \<open>n\<close> is \<open>B\<close>-smooth when
  all its prime factors are at most \<open>B\<close>. Both are bounded searches, so that they can be
  evaluated.
\<close>

definition composite :: "int \<Rightarrow> bool" where
  "composite n = (\<exists>d\<in>set [2..n - 1]. n mod d = 0)"

definition B_smooth :: "int \<Rightarrow> int \<Rightarrow> bool" where
  "B_smooth B n = (\<forall>q\<in>set [2..n]. is_prime q \<and> n mod q = 0 \<longrightarrow> q \<le> B)"

text \<open>A positive number is a power of two exactly when it has no odd divisor above 1.\<close>

definition has_odd_divisor :: "int \<Rightarrow> bool" where
  "has_odd_divisor n = (\<exists>c\<in>set [2..n]. odd c \<and> n mod c = 0)"

section \<open>Properties of the prime generator\<close>

lemma is_prime_iff: "is_prime p \<longleftrightarrow> 2 \<le> p \<and> (\<forall>d. 2 \<le> d \<and> d < p \<longrightarrow> \<not> d dvd p)"
  by (auto simp: is_prime_def dvd_eq_mod_eq_0)

lemma is_prime_divisors:
  "is_prime p \<longleftrightarrow> 1 < p \<and> (\<forall>d. 0 < d \<and> d dvd p \<longrightarrow> d = 1 \<or> d = p)"
proof
  assume p: "is_prime p"
  show "1 < p \<and> (\<forall>d. 0 < d \<and> d dvd p \<longrightarrow> d = 1 \<or> d = p)"
  proof (intro conjI allI impI)
    show "1 < p" using p by (simp add: is_prime_iff)
  next
    fix d assume d: "0 < d \<and> d dvd p"
    then have "d \<le> p" using p by (intro zdvd_imp_le) (auto simp: is_prime_iff)
    show "d = 1 \<or> d = p"
    proof (rule ccontr)
      assume "\<not> (d = 1 \<or> d = p)"
      with d \<open>d \<le> p\<close> have "2 \<le> d \<and> d < p" by linarith
      with p d show False by (simp add: is_prime_iff)
    qed
  qed
next
  assume "1 < p \<and> (\<forall>d. 0 < d \<and> d dvd p \<longrightarrow> d = 1 \<or> d = p)"
  then show "is_prime p" unfolding is_prime_iff by force
qed

lemma prime_divisor_exists: "2 \<le> x \<Longrightarrow> \<exists>q. is_prime q \<and> q dvd x"
proof (induction "nat x" arbitrary: x rule: less_induct)
  case less
  show ?case
  proof (cases "is_prime x")
    case True
    then show ?thesis by auto
  next
    case False
    with less.prems obtain d where d: "2 \<le> d" "d < x" "d dvd x"
      by (auto simp: is_prime_iff)
    then have "nat d < nat x" by simp
    from less.hyps[OF this d(1)] obtain q where "is_prime q" "q dvd d" by blast
    with d(3) show ?thesis by (meson dvd_trans)
  qed
qed

lemma sieve_inv_head_prime:
  assumes "sieve_inv (p # rest)"
  shows "is_prime p"
proof -
  have p2: "2 \<le> p" using assms by (simp add: sieve_inv_def)
  then obtain q where q: "is_prime q" "q dvd p" using prime_divisor_exists by blast
  then have "q \<in> set (p # rest)"
    using assms unfolding sieve_inv_def by (meson list.set_intros(1))
  moreover have "q \<le> p" using q p2 by (intro zdvd_imp_le) auto
  moreover have "\<forall>x\<in>set rest. p < x" using assms by (simp add: sieve_inv_def)
  ultimately have "q = p" by auto
  with q show ?thesis by simp
qed

lemma sieve_inv_filter:
  assumes "sieve_inv (p # rest)"
  shows "sieve_inv (filter (\<lambda>x. x mod p \<noteq> 0) rest)"
  unfolding sieve_inv_def
proof (intro conjI ballI allI impI)
  show "sorted_wrt (<) (filter (\<lambda>x. x mod p \<noteq> 0) rest)"
    using assms by (simp add: sieve_inv_def sorted_wrt_filter)
next
  fix x assume "x \<in> set (filter (\<lambda>x. x mod p \<noteq> 0) rest)"
  then show "2 \<le> x" using assms by (simp add: sieve_inv_def)
next
  fix x q
  assume x: "x \<in> set (filter (\<lambda>x. x mod p \<noteq> 0) rest)" and q: "is_prime q \<and> q dvd x"
  have p2: "2 \<le> p" using assms by (simp add: sieve_inv_def)
  from x have xr: "x \<in> set rest" and px: "\<not> p dvd x" by (auto simp: dvd_eq_mod_eq_0)
  from xr q assms have "q \<in> set (p # rest)"
    unfolding sieve_inv_def by (meson list.set_intros(2))
  moreover have "q \<noteq> p" using q px by auto
  ultimately have qr: "q \<in> set rest" by simp
  have "\<not> p dvd q"
  proof
    assume pq: "p dvd q"
    have "0 < p" using p2 by simp
    with q pq have "p = 1 \<or> p = q" by (simp add: is_prime_divisors)
    with p2 \<open>q \<noteq> p\<close> show False by auto
  qed
  with qr show "q \<in> set (filter (\<lambda>x. x mod p \<noteq> 0) rest)" by (simp add: dvd_eq_mod_eq_0)
qed

lemma sieve_inv_filter_primes:
  assumes "sieve_inv (p # rest)"
  shows "filter is_prime (filter (\<lambda>x. x mod p \<noteq> 0) rest) = filter is_prime rest"
proof -
  have p2: "2 \<le> p" using assms by (simp add: sieve_inv_def)
  have lt: "\<forall>x\<in>set rest. p < x" using assms by (simp add: sieve_inv_def)
  have nd: "\<not> p dvd x" if "x \<in> set rest" "is_prime x" for x
  proof -
    have "p < x" using lt that(1) by simp
    with p2 that(2) show ?thesis by (simp add: is_prime_iff)
  qed
  have "filter is_prime (filter (\<lambda>x. x mod p \<noteq> 0) rest)
          = filter (\<lambda>x. x mod p \<noteq> 0 \<and> is_prime x) rest"
    by (simp add: filter_filter)
  also have "\<dots> = filter is_prime rest"
    by (rule filter_cong) (use nd in auto)
  finally show ?thesis .
qed

lemma sieve_filter_primes: "sieve_inv xs \<Longrightarrow> sieve xs = filter is_prime xs"
proof (induction xs rule: sieve.induct)
  case 1
  then show ?case by simp
next
  case (2 prime rest)
  have "sieve (filter (\<lambda>x. x mod prime \<noteq> 0) rest)
          = filter is_prime (filter (\<lambda>x. x mod prime \<noteq> 0) rest)"
    by (rule "2.IH") (rule sieve_inv_filter[OF "2.prems"])
  also have "\<dots> = filter is_prime rest" by (rule sieve_inv_filter_primes[OF "2.prems"])
  finally show ?case using sieve_inv_head_prime[OF "2.prems"] by simp
qed

lemma sieve_inv_upto: "sieve_inv [2..limit]"
  unfolding sieve_inv_def
proof (intro conjI ballI allI impI)
  show "sorted_wrt (<) [2..limit]" by simp
next
  fix x assume "x \<in> set [2..limit]" then show "2 \<le> x" by simp
next
  fix x q assume x: "x \<in> set [2..limit]" and q: "is_prime q \<and> q dvd x"
  then have "q \<le> x" by (intro zdvd_imp_le) auto
  with x q show "q \<in> set [2..limit]" by (auto simp: is_prime_iff)
qed

lemma generate_primes_filter: "generate_primes limit = filter is_prime [2..limit]"
  unfolding generate_primes_def by (rule sieve_filter_primes[OF sieve_inv_upto])

text \<open>
  C6. For every integer \<open>limit\<close> the generator yields exactly the primes \<open>p\<close> with
  \<open>2 \<le> p \<le> limit\<close>, each once and in strictly ascending order, as a finite sequence (a
  list); for \<open>limit < 2\<close> it yields nothing.
\<close>

theorem generate_primes_correct:
  "set (generate_primes limit) = {p. is_prime p \<and> 2 \<le> p \<and> p \<le> limit}
   \<and> sorted_wrt (<) (generate_primes limit)
   \<and> distinct (generate_primes limit)
   \<and> (limit < 2 \<longrightarrow> generate_primes limit = [])"
proof (intro conjI impI)
  show "set (generate_primes limit) = {p. is_prime p \<and> 2 \<le> p \<and> p \<le> limit}"
    by (auto simp: generate_primes_filter)
  show "sorted_wrt (<) (generate_primes limit)"
    by (simp add: generate_primes_filter sorted_wrt_filter)
  show "distinct (generate_primes limit)"
    by (simp add: generate_primes_filter)
  show "generate_primes limit = []" if "limit < 2"
    using that by (simp add: generate_primes_filter)
qed

theorem generate_primes_correct_witness:
  "generate_primes 30 = [2, 3, 5, 7, 11, 13, 17, 19, 23, 29]
   \<and> sorted_wrt (<) (generate_primes 30)
   \<and> (1::int) < 2 \<and> generate_primes 1 = []"
proof -
  have a: "generate_primes 30 = [2, 3, 5, 7, 11, 13, 17, 19, 23, 29]" by code_simp
  have b: "(1::int) < 2" by simp
  from generate_primes_correct[of 1] b have c: "generate_primes 1 = []" by blast
  from generate_primes_correct[of 30] have d: "sorted_wrt (<) (generate_primes 30)" by blast
  from a b c d show ?thesis by blast
qed

section \<open>Properties of the factor search\<close>

subsection \<open>Helper facts about one attempt and about the attempts\<close>

lemma attempt_nontrivial:
  "attempt ilog num B ps guess = Some d \<Longrightarrow> d \<noteq> 1 \<and> d \<noteq> num \<and> (\<exists>g. d = gcd (g - 1) num)"
  by (induction ps arbitrary: guess) (auto simp: Let_def split: if_splits)

lemma gcd_proper:
  fixes num :: int
  assumes "2 \<le> num" "d = gcd x num" "d \<noteq> 1" "d \<noteq> num"
  shows "d dvd num \<and> 1 < d \<and> d < num \<and> num mod d = 0"
proof -
  have dv: "d dvd num" using assms by simp
  have "0 \<le> d" using assms by simp
  moreover have "d \<noteq> 0" using assms by auto
  ultimately have "1 < d" using assms by linarith
  moreover have "d \<le> num" using dv assms by (intro zdvd_imp_le) auto
  moreover have "d < num" using \<open>d \<le> num\<close> \<open>d \<noteq> num\<close> by linarith
  ultimately show ?thesis using dv by auto
qed

lemma search_Some:
  "search ilog randint num B n k = (Some d, k') \<Longrightarrow>
     \<exists>i. k \<le> i \<and> i < k + n \<and> attempt ilog num B (generate_primes B) (randint i) = Some d"
proof (induction n arbitrary: k)
  case 0
  then show ?case by simp
next
  case (Suc n)
  show ?case
  proof (cases "attempt ilog num B (generate_primes B) (randint k)")
    case None
    with Suc.prems have "search ilog randint num B n (Suc k) = (Some d, k')" by simp
    from Suc.IH[OF this] obtain i where "Suc k \<le> i" "i < Suc k + n"
      "attempt ilog num B (generate_primes B) (randint i) = Some d" by blast
    then show ?thesis by (intro exI[where x=i]) simp
  next
    case (Some a)
    with Suc.prems have "a = d" by simp
    with Some show ?thesis by (intro exI[where x=k]) simp
  qed
qed

lemma fold_in_range:
  "0 < num \<Longrightarrow> 0 \<le> fold_in ilog num B prime guess \<and> fold_in ilog num B prime guess < num"
  by (simp add: fold_in_def Let_def)

lemma search_None_iff:
  "fst (search ilog randint num B n k) = None \<longleftrightarrow>
     (\<forall>i. k \<le> i \<and> i < k + n \<longrightarrow> attempt ilog num B (generate_primes B) (randint i) = None)"
proof (induction n arbitrary: k)
  case 0
  then show ?case by auto
next
  case (Suc n)
  show ?case
  proof (cases "attempt ilog num B (generate_primes B) (randint k)")
    case None
    have "(\<forall>i. k \<le> i \<and> i < k + Suc n \<longrightarrow>
              attempt ilog num B (generate_primes B) (randint i) = None)
       \<longleftrightarrow> (\<forall>i. Suc k \<le> i \<and> i < Suc k + n \<longrightarrow>
              attempt ilog num B (generate_primes B) (randint i) = None)"
      using None
      by (metis Suc_leI add_Suc_right add_Suc_shift le_neq_implies_less le_SucI Suc_leD)
    with None Suc.IH[of "Suc k"] show ?thesis by simp
  next
    case (Some a)
    then show ?thesis by (auto intro!: exI[where x=k])
  qed
qed

lemma search_None_calls:
  "fst (search ilog randint num B n k) = None \<Longrightarrow> snd (search ilog randint num B n k) = k + n"
  by (induction n arbitrary: k) (auto split: option.splits)

lemma search_calls_le:
  "k \<le> snd (search ilog randint num B n k) \<and> snd (search ilog randint num B n k) \<le> k + n"
proof (induction n arbitrary: k)
  case 0
  then show ?case by simp
next
  case (Suc n)
  from Suc.IH[of "Suc k"] show ?case by (auto split: option.splits)
qed

lemma search_depends:
  "(\<forall>i. k \<le> i \<and> i < k + n \<longrightarrow> randint i = randint' i) \<Longrightarrow>
     search ilog randint num B n k = search ilog randint' num B n k"
proof (induction n arbitrary: k)
  case 0
  then show ?case by simp
next
  case (Suc n)
  have "randint k = randint' k" using Suc.prems by simp
  moreover have "search ilog randint num B n (Suc k) = search ilog randint' num B n (Suc k)"
    by (rule Suc.IH) (use Suc.prems in auto)
  ultimately show ?case by (simp split: option.splits)
qed

lemma attempt_guesses:
  "attempt ilog num B ps guess =
     (case guesses ilog num B ps guess of
        [] \<Rightarrow> None
      | g # gs \<Rightarrow>
          (let divisor = gcd (last (g # gs) - 1) num
           in if divisor \<noteq> 1 \<and> divisor \<noteq> num then Some divisor else None))"
  by (induction ps arbitrary: guess) (auto simp: Let_def split: list.splits)

lemma guesses_range:
  "0 < num \<Longrightarrow> g \<in> set (guesses ilog num B ps guess) \<Longrightarrow> 0 \<le> g \<and> g < num"
  by (induction ps arbitrary: guess) (auto simp: Let_def fold_in_range split: if_splits)

subsection \<open>The returned divisor\<close>

text \<open>
  C2. Whenever the function returns a value \<open>d\<close> other than \<^verbatim>\<open>None\<close>, \<open>d\<close> divides \<open>num\<close>
  exactly and \<open>1 < d < num\<close>: it is never 1 and never \<open>num\<close>. (A value is only returned
  for \<open>num \<ge> 2\<close>, so that bound need not be assumed.)
\<close>

theorem pollard_rho_divisor_proper:
  assumes "fst (pollard_rho ilog randint num B step attempts) = Inr (Some d)"
  shows "d dvd num \<and> num mod d = 0 \<and> 1 < d \<and> d < num"
proof -
  from assms have num: "2 \<le> num"
    by (auto simp: pollard_rho_def split: if_splits)
  with assms obtain k where "search ilog randint num B (nat attempts) 0 = (Some d, k)"
    by (auto simp: pollard_rho_def split: prod.splits)
  then obtain i where "attempt ilog num B (generate_primes B) (randint i) = Some d"
    using search_Some by blast
  then obtain g where "d \<noteq> 1" "d \<noteq> num" "d = gcd (g - 1) num"
    using attempt_nontrivial by blast
  with gcd_proper[OF num] show ?thesis by blast
qed

theorem pollard_rho_divisor_proper_witness:
  "fst (pollard_rho (\<lambda>B p. if p = 2 then 3 else if p = 3 then 2 else 1) (\<lambda>_. 98) 8051 10 1 5)
     = Inr (Some 97)
   \<and> (97::int) dvd 8051 \<and> (8051::int) mod 97 = 0 \<and> (1::int) < 97 \<and> (97::int) < 8051"
proof -
  have h: "fst (pollard_rho (\<lambda>B p. if p = 2 then 3 else if p = 3 then 2 else 1) (\<lambda>_. 98)
             8051 10 1 5) = Inr (Some 97)"
    by code_simp
  from pollard_rho_divisor_proper[OF h] h show ?thesis by blast
qed

subsection \<open>Inputs below 2\<close>

text \<open>
  C4. For a negative \<open>num\<close>, whatever \<open>B\<close> and \<open>attempts\<close> are, the function raises
  \<^verbatim>\<open>ValueError\<close> before anything else happens: no call of \<^verbatim>\<open>randint\<close> is made (the call
  count is 0), hence no attempt is run and no prime is generated.
\<close>

theorem pollard_rho_negative:
  assumes "num < 0"
  shows "pollard_rho ilog randint num B step attempts = (Inl ValueError, 0)"
  using assms by (simp add: pollard_rho_def)

theorem pollard_rho_negative_witness:
  "(- 5 :: int) < 0 \<and> pollard_rho (\<lambda>_ _. 1) (\<lambda>_. 2) (- 5) 10 1 3 = (Inl ValueError, 0)"
proof -
  have h: "(- 5 :: int) < 0" by simp
  from pollard_rho_negative[OF h] h show ?thesis by blast
qed

text \<open>
  C5. For \<open>num = 0\<close> and \<open>num = 1\<close>, whatever \<open>B\<close> and \<open>attempts\<close> are, the function returns
  \<^verbatim>\<open>None\<close> at once: no call of \<^verbatim>\<open>randint\<close> is made and no attempt is run.
\<close>

theorem pollard_rho_below_two:
  assumes "0 \<le> num" "num < 2"
  shows "pollard_rho ilog randint num B step attempts = (Inr None, 0)"
  using assms by (simp add: pollard_rho_def)

theorem pollard_rho_below_two_witness:
  "(0::int) \<le> 1 \<and> (1::int) < 2 \<and> pollard_rho (\<lambda>_ _. 1) (\<lambda>_. 2) 1 10 1 3 = (Inr None, 0)"
proof -
  have h: "(0::int) \<le> 1" "(1::int) < 2" by simp_all
  from pollard_rho_below_two[OF h] h show ?thesis by blast
qed

subsection \<open>Termination and exhaustion of the attempts\<close>

text \<open>
  C7. For \<open>num \<ge> 2\<close>, any \<open>B\<close> and \<open>attempts \<ge> 0\<close> the function returns (every function of the
  model is total: the prime list is finite and the rounds are counted down), it makes at
  most \<open>attempts\<close> draws, and when no attempt finds a nontrivial gcd it returns \<^verbatim>\<open>None\<close>
  after exactly \<open>attempts\<close> tries.
\<close>

theorem pollard_rho_terminates:
  assumes "2 \<le> num" "0 \<le> attempts"
  shows "\<exists>found calls.
           pollard_rho ilog randint num B step attempts = (Inr found, calls)
           \<and> int calls \<le> attempts
           \<and> ((\<forall>i. i < nat attempts \<longrightarrow>
                  attempt ilog num B (generate_primes B) (randint i) = None)
                \<longrightarrow> found = None \<and> int calls = attempts)"
proof -
  obtain found calls where s: "search ilog randint num B (nat attempts) 0 = (found, calls)"
    by (cases "search ilog randint num B (nat attempts) 0")
  then have p: "pollard_rho ilog randint num B step attempts = (Inr found, calls)"
    using assms(1) by (simp add: pollard_rho_def)
  have "calls \<le> nat attempts"
    using search_calls_le[of 0 ilog randint num B "nat attempts"] s by simp
  then have le: "int calls \<le> attempts" using assms(2) by simp
  have "found = None \<and> int calls = attempts"
    if "\<forall>i. i < nat attempts \<longrightarrow> attempt ilog num B (generate_primes B) (randint i) = None"
  proof -
    from that have n: "fst (search ilog randint num B (nat attempts) 0) = None"
      by (simp add: search_None_iff)
    from search_None_calls[OF n] n s assms(2) show ?thesis by simp
  qed
  with p le show ?thesis by blast
qed

theorem pollard_rho_terminates_witness:
  "(2::int) \<le> 17 \<and> (0::int) \<le> 5
   \<and> pollard_rho (\<lambda>B p. if p = 2 then 3 else if p = 3 then 2 else 1)
        (\<lambda>k. [5, 7, 2, 3, 11] ! k) 17 10 1 5 = (Inr None, 5)"
proof -
  have h: "(2::int) \<le> 17" "(0::int) \<le> 5" by simp_all
  have e: "pollard_rho (\<lambda>B p. if p = 2 then 3 else if p = 3 then 2 else 1)
             (\<lambda>k. [5, 7, 2, 3, 11] ! k) 17 10 1 5 = (Inr None, 5)"
    by code_simp
  from pollard_rho_terminates[OF h, of "\<lambda>B p. if p = 2 then 3 else if p = 3 then 2 else 1"
      "\<lambda>k. [5, 7, 2, 3, 11] ! k" 10 1] e h
  show ?thesis by blast
qed

subsection \<open>Dependence on the randomness and on \<open>step\<close>\<close>

text \<open>
  C8. The result is a function of \<open>num\<close>, \<open>B\<close>, \<open>attempts\<close> and the random draws: two runs
  whose first \<open>attempts\<close> draws agree return the same result (and make the same number of
  draws).
\<close>

theorem pollard_rho_deterministic:
  assumes "\<forall>i. i < nat attempts \<longrightarrow> randint i = randint' i"
  shows "pollard_rho ilog randint num B step attempts
           = pollard_rho ilog randint' num B step attempts"
proof -
  have "search ilog randint num B (nat attempts) 0 = search ilog randint' num B (nat attempts) 0"
    by (rule search_depends) (use assms in simp)
  then show ?thesis by (simp add: pollard_rho_def)
qed

theorem pollard_rho_deterministic_witness:
  "pollard_rho (\<lambda>_ _. 1) (\<lambda>k. if k < 3 then 5 else 7) 15 2 1 3
     = pollard_rho (\<lambda>_ _. 1) (\<lambda>k. if k < 3 then 5 else 9) 15 2 1 3"
proof -
  have h: "\<forall>i. i < nat 3 \<longrightarrow> (if i < 3 then 5 else 7) = (if i < 3 then 5 else (9::int))"
    by simp
  from pollard_rho_deterministic[OF h] show ?thesis .
qed

subsection \<open>The running guess\<close>

text \<open>
  C9. In every attempt (whatever the base drawn), each value the running guess takes after
  a step \<^verbatim>\<open>guess = pow(guess, r, num)\<close> lies in \<open>[0, num)\<close>.
\<close>

theorem guess_stays_reduced:
  assumes "2 \<le> num" "g \<in> set (guesses ilog num B (generate_primes B) guess)"
  shows "0 \<le> g \<and> g < num"
  using assms guesses_range[of num g ilog B "generate_primes B" guess] by simp

theorem guess_stays_reduced_witness:
  "(2::int) \<le> 8051
   \<and> guesses (\<lambda>B p. if p = 2 then 3 else if p = 3 then 2 else 1) 8051 10 (generate_primes 10) 5
       = [4177, 4052, 75, 507]
   \<and> (0::int) \<le> 4052 \<and> (4052::int) < 8051"
proof -
  have h: "(2::int) \<le> 8051" by simp
  have e: "guesses (\<lambda>B p. if p = 2 then 3 else if p = 3 then 2 else 1) 8051 10
             (generate_primes 10) 5 = [4177, 4052, 75, 507]"
    by code_simp
  then have m: "4052 \<in> set (guesses (\<lambda>B p. if p = 2 then 3 else if p = 3 then 2 else 1) 8051 10
             (generate_primes 10) 5)"
    by simp
  from guess_stays_reduced[OF h m] h e show ?thesis by blast
qed

text \<open>
  C10. The parameter \<^verbatim>\<open>step\<close> is never read: two runs that differ only in \<open>step\<close> return
  the same result.
\<close>

theorem pollard_rho_ignores_step:
  "pollard_rho ilog randint num B step attempts = pollard_rho ilog randint num B step' attempts"
  by (simp add: pollard_rho_def)

subsection \<open>Existence of a successful draw\<close>

lemma dvd_power_minus_1:
  fixes a :: int
  assumes "P dvd a - 1"
  shows "P dvd a ^ r - 1"
proof (induction r)
  case 0
  then show ?case by simp
next
  case (Suc r)
  have eq: "a ^ Suc r - 1 = a * (a ^ r - 1) + (a - 1)" by (simp add: algebra_simps)
  have "P dvd a * (a ^ r - 1) + (a - 1)"
    using Suc assms by (intro dvd_add dvd_mult) auto
  then show ?case by (simp only: eq)
qed

lemma dvd_mod_minus_1:
  fixes x :: int
  assumes "P dvd m"
  shows "P dvd x mod m - 1 \<longleftrightarrow> P dvd x - 1"
proof -
  have eq: "x mod m - 1 = (x - 1) - m * (x div m)"
    by (simp add: minus_mult_div_eq_mod [symmetric] algebra_simps)
  have d: "P dvd m * (x div m)" using assms by simp
  show ?thesis unfolding eq using d by (rule dvd_diff_left_iff)
qed

lemma binomial_first_order:
  fixes x :: int
  shows "x * x dvd (1 + x) ^ r - 1 - int r * x"
proof (induction r)
  case 0
  then show ?case by simp
next
  case (Suc r)
  have "(1 + x) ^ Suc r - 1 - int (Suc r) * x
          = (1 + x) * ((1 + x) ^ r - 1 - int r * x) + int r * (x * x)"
    by (simp add: algebra_simps)
  with Suc show ?case by simp
qed

lemma attempt_first_step:
  assumes "2 \<le> B"
    and "gcd (fold_in ilog num B 2 a - 1) num \<noteq> 1"
    and "gcd (fold_in ilog num B 2 a - 1) num \<noteq> num"
  shows "attempt ilog num B (generate_primes B) a = Some (gcd (fold_in ilog num B 2 a - 1) num)"
proof -
  have "[2..B] = 2 # [3..B]" using assms(1) by (simp add: upto_rec1)
  then obtain rest where "generate_primes B = 2 # rest"
    by (simp add: generate_primes_def)
  with assms(2,3) show ?thesis by (simp add: Let_def)
qed

lemma coprime_draw:
  fixes P Q :: int
  assumes "2 \<le> P" "2 \<le> Q" "coprime P Q" "num = P * Q" "1 \<le> r"
  shows "\<exists>a. 2 \<le> a \<and> a \<le> num \<and> gcd (a ^ r mod num - 1) num \<noteq> 1
            \<and> gcd (a ^ r mod num - 1) num \<noteq> num"
proof -
  obtain u v where uv: "u * P + v * Q = 1"
    using bezout_int[of P Q] assms(3) by auto
  define a where "a = (v * Q) mod num"
  have num2: "2 \<le> num" 
  proof -
    have "2 * 2 \<le> P * Q" using assms(1,2) by (intro mult_mono) auto
    then show ?thesis using assms(4) by simp
  qed
  have Pn: "P dvd num" and Qn: "Q dvd num" using assms(4) by simp_all
  have "v * Q - 1 = - u * P" using uv by (simp add: algebra_simps)
  then have "P dvd v * Q - 1" by simp
  then have Pa: "P dvd a - 1" unfolding a_def by (simp add: dvd_mod_minus_1[OF Pn])
  have Qa: "Q dvd a" unfolding a_def by (simp add: dvd_mod_iff[OF Qn])
  have a0: "0 \<le> a" and an: "a < num" unfolding a_def using num2 by simp_all
  have "a \<noteq> 0"
  proof
    assume "a = 0"
    with Pa have "P dvd 1" by simp
    with assms(1) show False by simp
  qed
  moreover have "a \<noteq> 1"
  proof
    assume "a = 1"
    with Qa assms(2) show False by simp
  qed
  ultimately have a2: "2 \<le> a" using a0 by linarith
  let ?g = "a ^ r mod num"
  have Pg: "P dvd ?g - 1"
    by (simp add: dvd_mod_minus_1[OF Pn] dvd_power_minus_1[OF Pa])
  have "Q dvd a ^ r" using Qa assms(5) by (simp add: dvd_power_same dvd_trans[OF Qa] dvd_power)
  then have Qg: "Q dvd ?g" by (simp add: dvd_mod_iff[OF Qn])
  have g1: "gcd (?g - 1) num \<noteq> 1"
  proof
    assume "gcd (?g - 1) num = 1"
    moreover have "P dvd gcd (?g - 1) num" using Pg Pn by simp
    ultimately have "P dvd 1" by simp
    with assms(1) show False by simp
  qed
  have g2: "gcd (?g - 1) num \<noteq> num"
  proof
    assume "gcd (?g - 1) num = num"
    then have "num dvd ?g - 1" by (metis gcd_dvd1)
    then have "Q dvd ?g - 1" using Qn by (rule dvd_trans[rotated])
    with Qg have "Q dvd ?g - (?g - 1)" by (rule dvd_diff)
    then have "Q dvd 1" by simp
    with assms(2) show False by simp
  qed
  from a2 an g1 g2 show ?thesis by (intro exI[where x=a]) simp
qed

lemma odd_power_draw:
  fixes c :: int
  assumes "3 \<le> c" "odd c" "2 \<le> k" "num = c ^ k"
  shows "\<exists>a. 2 \<le> a \<and> a \<le> num \<and> gcd (a ^ (2 ^ s) mod num - 1) num \<noteq> 1
            \<and> gcd (a ^ (2 ^ s) mod num - 1) num \<noteq> num"
proof -
  define x where "x = c ^ (k - 1)"
  define a where "a = 1 + x"
  let ?r = "(2::nat) ^ s"
  let ?g = "a ^ ?r mod num"
  have x1: "3 \<le> x"
  proof -
    have "c ^ 1 \<le> c ^ (k - 1)" using assms(1,3) by (intro power_increasing) auto
    with assms(1) show ?thesis by (simp add: x_def)
  qed
  have numx: "num = c * x"
    using assms(3,4) by (simp add: x_def power_eq_if)
  have xn: "x dvd num" by (simp add: numx)
  have nxx: "num dvd x * x"
  proof -
    have "k \<le> (k - 1) + (k - 1)" using assms(3) by simp
    then have "c ^ k dvd c ^ ((k - 1) + (k - 1))" by (rule le_imp_power_dvd)
    then show ?thesis by (simp add: assms(4) x_def power_add)
  qed
  have a2: "2 \<le> a" using x1 by (simp add: a_def)
  have an: "a \<le> num"
  proof -
    have "2 * x \<le> c * x" using assms(1) x1 by (intro mult_right_mono) auto
    with x1 have "1 + x \<le> c * x" by linarith
    then show ?thesis by (simp only: a_def numx)
  qed
  have "x dvd a - 1" by (simp add: a_def)
  then have "x dvd a ^ ?r - 1" by (rule dvd_power_minus_1)
  then have xg: "x dvd ?g - 1" by (simp add: dvd_mod_minus_1[OF xn])
  have g1: "gcd (?g - 1) num \<noteq> 1"
  proof
    assume "gcd (?g - 1) num = 1"
    moreover have "x dvd gcd (?g - 1) num" using xg xn by simp
    ultimately have "x dvd 1" by simp
    with x1 show False by simp
  qed
  have g2: "gcd (?g - 1) num \<noteq> num"
  proof
    assume "gcd (?g - 1) num = num"
    then have "num dvd ?g - 1" by (metis gcd_dvd1)
    then have "num dvd a ^ ?r - 1" by (simp add: dvd_mod_minus_1[OF dvd_refl])
    moreover have "num dvd a ^ ?r - 1 - int ?r * x"
      using binomial_first_order[of x ?r] nxx unfolding a_def by (rule dvd_trans[rotated])
    ultimately have "num dvd (a ^ ?r - 1) - (a ^ ?r - 1 - int ?r * x)" by (rule dvd_diff)
    then have "c * x dvd int ?r * x" by (simp add: numx)
    then have "c dvd int ?r" using x1 by simp
    then have "c dvd 2 ^ s" by simp
    moreover have "coprime c (2 ^ s)" using assms(2) by simp
    ultimately have "c dvd 1" by (metis coprime_absorb_left is_unit_gcd)
    with assms(1) show False by simp
  qed
  from a2 an g1 g2 show ?thesis by (intro exI[where x=a]) simp
qed

lemma composite_iff: "composite n \<longleftrightarrow> (\<exists>d. 2 \<le> d \<and> d < n \<and> d dvd n)"
  by (auto simp: composite_def dvd_eq_mod_eq_0)

lemma B_smooth_iff: "0 < n \<Longrightarrow> B_smooth B n \<longleftrightarrow> (\<forall>q. is_prime q \<and> q dvd n \<longrightarrow> q \<le> B)"
proof -
  assume n: "0 < n"
  have "2 \<le> q \<and> q \<le> n" if "is_prime q" "q dvd n" for q
    using that n by (auto simp: is_prime_iff intro: zdvd_imp_le)
  then show ?thesis by (auto simp: B_smooth_def dvd_eq_mod_eq_0)
qed

lemma split_power:
  fixes q n :: int
  assumes "2 \<le> q" "1 \<le> n"
  shows "\<exists>k m. n = q ^ k * m \<and> \<not> q dvd m \<and> 1 \<le> m"
  using assms(2)
proof (induction "nat n" arbitrary: n rule: less_induct)
  case less
  show ?case
  proof (cases "q dvd n")
    case False
    with less.prems show ?thesis by (intro exI[where x=0] exI[where x=n]) simp
  next
    case True
    then obtain n' where n': "n = q * n'" by (auto simp: dvd_def)
    have pos: "1 \<le> n'"
    proof (rule ccontr)
      assume "\<not> 1 \<le> n'"
      then have "n' \<le> 0" by simp
      moreover have "0 \<le> q" using assms(1) by simp
      ultimately have "q * n' \<le> 0" by (simp add: mult_nonneg_nonpos)
      with n' less.prems show False by simp
    qed
    have "2 * n' \<le> q * n'" using assms(1) pos by (intro mult_right_mono) auto
    with pos n' have "n' < n" by linarith
    then have "nat n' < nat n" using pos by simp
    from less.hyps[OF this pos] obtain k m where "n' = q ^ k * m" "\<not> q dvd m" "1 \<le> m"
      by blast
    with n' show ?thesis by (intro exI[where x="Suc k"] exI[where x=m]) simp
  qed
qed

lemma prime_coprime:
  assumes "is_prime q" "\<not> q dvd m"
  shows "coprime q m"
proof -
  have q: "1 < q" using assms(1) by (simp add: is_prime_iff)
  have "0 < gcd q m" using q by (simp add: gcd_pos_int)
  moreover have "gcd q m dvd q" by simp
  ultimately have "gcd q m = 1 \<or> gcd q m = q"
    using assms(1) by (simp add: is_prime_divisors)
  moreover have "gcd q m \<noteq> q" using assms(2) by (metis gcd_dvd2)
  ultimately show ?thesis by (simp add: coprime_iff_gcd_eq_1)
qed

lemma draw_exists:
  assumes "composite num" "odd c" "1 < c" "c dvd num"
  shows "\<exists>a. 2 \<le> a \<and> a \<le> num \<and> gcd (a ^ (2 ^ s) mod num - 1) num \<noteq> 1
            \<and> gcd (a ^ (2 ^ s) mod num - 1) num \<noteq> num"
proof -
  from assms(1) have num: "3 \<le> num" by (auto simp: composite_iff)
  from assms(3) obtain q where q: "is_prime q" "q dvd c"
    using prime_divisor_exists[of c] by auto
  have "odd q" using q(2) assms(2) by (meson dvd_trans)
  have q2: "2 \<le> q" using q(1) by (simp add: is_prime_iff)
  with \<open>odd q\<close> have q3: "3 \<le> q" by (cases "q = 2") auto
  have qn: "q dvd num" using q(2) assms(4) by (rule dvd_trans)
  from split_power[OF q2, of num] num obtain k m
    where km: "num = q ^ k * m" "\<not> q dvd m" "1 \<le> m" by auto
  have k1: "1 \<le> k"
  proof (rule ccontr)
    assume "\<not> 1 \<le> k"
    then have "k = 0" by simp
    with km(1) qn km(2) show False by simp
  qed
  show ?thesis
  proof (cases "m = 1")
    case True
    then have nq: "num = q ^ k" using km(1) by simp
    have "k \<noteq> 1"
    proof
      assume "k = 1"
      with nq assms(1) q(1) show False by (auto simp: composite_iff is_prime_iff)
    qed
    with k1 have "2 \<le> k" by simp
    from odd_power_draw[OF q3 \<open>odd q\<close> this nq] show ?thesis .
  next
    case False
    with km(3) have m2: "2 \<le> m" by simp
    have "q ^ 1 \<le> q ^ k" using q2 k1 by (intro power_increasing) auto
    with q2 have P2: "2 \<le> q ^ k" by simp
    have cop: "coprime (q ^ k) m"
      using prime_coprime[OF q(1) km(2)] by simp
    have r: "1 \<le> (2::nat) ^ s" by simp
    from coprime_draw[OF P2 m2 cop km(1) r] show ?thesis .
  qed
qed

lemma fold_in_two: "fold_in ilog num B 2 a = a ^ (2 ^ ilog B 2) mod num"
  by (simp add: fold_in_def Let_def nat_power_eq)

lemma search_first_success:
  assumes "attempt ilog num B (generate_primes B) (randint k) = Some d"
  shows "search ilog randint num B (Suc n) k = (Some d, Suc k)"
  using assms by simp

lemma search_no_primes:
  "generate_primes B = [] \<Longrightarrow> search ilog randint num B n k = (None, k + n)"
  by (induction n arbitrary: k) simp_all

lemma has_odd_divisor_iff:
  "0 < n \<Longrightarrow> has_odd_divisor n \<longleftrightarrow> (\<exists>c. odd c \<and> 1 < c \<and> c dvd n)"
proof -
  assume n: "0 < n"
  have "2 \<le> c \<and> c \<le> n" if "1 < c" "c dvd n" for c
    using that n by (auto intro: zdvd_imp_le)
  then show ?thesis by (auto simp: has_odd_divisor_def dvd_eq_mod_eq_0)
qed

lemma odd_square_minus_1:
  fixes a :: int
  assumes "odd a"
  shows "8 dvd a * a - 1"
proof -
  from assms obtain b where b: "a = 2 * b + 1" by (elim oddE)
  have eq: "a * a - 1 = 4 * (b * (b + 1))" by (simp add: b algebra_simps)
  have "even (b * (b + 1))" by simp
  then obtain c where "b * (b + 1) = 2 * c" by (elim evenE)
  with eq have "a * a - 1 = 8 * c" by simp
  then show ?thesis by simp
qed

lemma power_two_Suc: "(a::int) ^ (2 ^ Suc t) = a ^ (2 ^ t) * a ^ (2 ^ t)"
  by (simp add: power_add [symmetric] mult_2)

lemma odd_power_two_minus_1:
  fixes a :: int
  assumes "odd a"
  shows "2 ^ (Suc t + 2) dvd a ^ (2 ^ Suc t) - 1"
proof (induction t)
  case 0
  from odd_square_minus_1[OF assms] show ?case by (simp add: power2_eq_square)
next
  case (Suc t)
  let ?x = "a ^ (2 ^ Suc t)"
  have eq: "a ^ (2 ^ Suc (Suc t)) - 1 = (?x - 1) * (?x + 1)"
    by (simp only: power_two_Suc[of a "Suc t"]) (simp add: algebra_simps)
  have "odd ?x" using assms by simp
  then have "2 dvd ?x + 1" by simp
  with Suc have "2 ^ (Suc t + 2) * 2 dvd (?x - 1) * (?x + 1)" by (rule mult_dvd_mono)
  then show ?case by (simp only: eq) (simp add: mult.commute)
qed

lemma three_power_two_minus_1:
  "\<exists>m::int. odd m \<and> 3 ^ (2 ^ Suc t) - 1 = 2 ^ (Suc t + 2) * m"
proof (induction t)
  case 0
  show ?case by (intro exI[where x=1]) simp
next
  case (Suc t)
  let ?x = "(3::int) ^ (2 ^ Suc t)"
  from Suc obtain m :: int where m: "odd m" "?x - 1 = 2 ^ (Suc t + 2) * m" by blast
  have x: "?x = 2 ^ (Suc t + 2) * m + 1" using m(2) by simp
  have eq: "3 ^ (2 ^ Suc (Suc t)) - 1 = (?x - 1) * (?x + 1)"
    by (simp only: power_two_Suc[of 3 "Suc t"]) (simp add: algebra_simps)
  have "?x + 1 = 2 * (2 ^ (Suc t + 1) * m + 1)" by (subst x) simp
  with eq m(2) have "3 ^ (2 ^ Suc (Suc t)) - 1
      = 2 ^ (Suc (Suc t) + 2) * (m * (2 ^ (Suc t + 1) * m + 1))"
    by simp
  moreover have "odd (m * (2 ^ (Suc t + 1) * m + 1))" using m(1) by simp
  ultimately show ?case by blast
qed

text \<open>A power of two: the base 3 succeeds at the first prime when the exponent is small.\<close>

lemma pow2_draw_three:
  assumes "2 \<le> k" "s = 0 \<or> s + 2 < k"
  shows "gcd (3 ^ (2 ^ s) mod 2 ^ k - 1) ((2::int) ^ k) \<noteq> 1
       \<and> gcd (3 ^ (2 ^ s) mod 2 ^ k - 1) ((2::int) ^ k) \<noteq> 2 ^ k"
proof (cases s)
  case 0
  have "(2::int) ^ 2 \<le> 2 ^ k" using assms(1) by (intro power_increasing) auto
  then have big: "(4::int) \<le> 2 ^ k" by simp
  then have "(3::int) mod 2 ^ k = 3" by simp
  then have g: "(3::int) ^ (2 ^ s) mod 2 ^ k - 1 = 2" using 0 by simp
  have "(2::int) dvd 2 ^ k" using assms(1) by (simp add: dvd_power)
  then have "gcd 2 ((2::int) ^ k) = 2" by (simp add: gcd_proj1_iff)
  with g big show ?thesis by simp
next
  case (Suc t)
  with assms(2) have lt: "Suc t + 2 < k" by simp
  let ?D = "(2::int) ^ (Suc t + 2)"
  let ?g = "(3::int) ^ (2 ^ s) mod 2 ^ k"
  from three_power_two_minus_1[of t] obtain m :: int
    where m: "odd m" "3 ^ (2 ^ Suc t) - 1 = ?D * m" by blast
  have Dn: "?D dvd 2 ^ k" using lt by (intro le_imp_power_dvd) simp
  have "?D dvd (3::int) ^ (2 ^ s) - 1" using m(2) Suc by simp
  then have Dg: "?D dvd ?g - 1"
    using dvd_mod_minus_1[OF Dn, of "3 ^ (2 ^ s)"] by blast
  have g1: "gcd (?g - 1) (2 ^ k) \<noteq> 1"
  proof
    assume "gcd (?g - 1) (2 ^ k) = 1"
    moreover have "?D dvd gcd (?g - 1) (2 ^ k)" using Dg Dn by simp
    ultimately have "?D dvd 1" by simp
    moreover have "(2::int) dvd ?D" by simp
    ultimately have "(2::int) dvd 1" by (rule dvd_trans[rotated])
    then show False by simp
  qed
  have g2: "gcd (?g - 1) (2 ^ k) \<noteq> 2 ^ k"
  proof
    assume "gcd (?g - 1) (2 ^ k) = 2 ^ k"
    then have "(2::int) ^ k dvd ?g - 1" by (metis gcd_dvd1)
    then have "(2::int) ^ k dvd 3 ^ (2 ^ s) - 1"
      using dvd_mod_minus_1[OF dvd_refl, of "2 ^ k" "3 ^ (2 ^ s)"] by blast
    then have d: "(2::int) ^ k dvd ?D * m" using m(2) Suc by simp
    have "k = (Suc t + 2) + (k - (Suc t + 2))" using lt by simp
    then have "(2::int) ^ k = ?D * 2 ^ (k - (Suc t + 2))" by (metis power_add)
    with d have "?D * 2 ^ (k - (Suc t + 2)) dvd ?D * m" by simp
    then have "(2::int) ^ (k - (Suc t + 2)) dvd m" by simp
    moreover have "(2::int) dvd 2 ^ (k - (Suc t + 2))" using lt by (simp add: dvd_power)
    ultimately have "2 dvd m" by (rule dvd_trans[rotated])
    with m(1) show False by simp
  qed
  from g1 g2 show ?thesis by simp
qed

text \<open>
  A power of two no larger than \<open>4 * 2 ^ s\<close>: an even guess stays even (gcd 1), an odd base
  becomes 1 at the first prime and stays 1 (gcd \<open>num\<close>).
\<close>

lemma pow2_stuck:
  assumes "1 \<le> k"
  shows "even g \<or> g = 1 \<Longrightarrow> attempt ilog (2 ^ k) B ps g = None"
proof (induction ps arbitrary: g)
  case Nil
  then show ?case by simp
next
  case (Cons prime ps)
  let ?num = "(2::int) ^ k"
  let ?g' = "fold_in ilog ?num B prime g"
  have "(2::int) ^ 1 \<le> 2 ^ k" using assms by (intro power_increasing) auto
  then have num2: "2 \<le> ?num" by simp
  have ev: "even ?num" using assms by simp
  have st: "(even ?g' \<and> gcd (?g' - 1) ?num = 1) \<or> (?g' = 1 \<and> gcd (?g' - 1) ?num = ?num)"
  proof (cases "g = 1 \<or> nat (prime ^ ilog B prime) = 0")
    case True
    then have "g ^ nat (prime ^ ilog B prime) = 1" by auto
    moreover have "(1::int) mod ?num = 1" using num2 by (intro mod_pos_pos_trivial) auto
    ultimately have "?g' = 1" by (simp only: fold_in_def Let_def)
    moreover have "gcd 0 ?num = ?num" by simp
    ultimately show ?thesis by simp
  next
    case False
    with Cons.prems have "even g" "0 < nat (prime ^ ilog B prime)" by auto
    then have "even (g ^ nat (prime ^ ilog B prime))" by simp
    then have e: "even ?g'" using ev by (simp add: fold_in_def Let_def dvd_mod_iff)
    then have "odd (?g' - 1)" by simp
    then have "coprime (?g' - 1) ?num" by simp
    with e show ?thesis by (simp add: coprime_iff_gcd_eq_1)
  qed
  then have triv: "\<not> (gcd (?g' - 1) ?num \<noteq> 1 \<and> gcd (?g' - 1) ?num \<noteq> ?num)" by auto
  from st have "even ?g' \<or> ?g' = 1" by auto
  from Cons.IH[OF this] triv show ?case by (simp add: Let_def)
qed

lemma pow2_first_step:
  assumes "1 \<le> k" "k \<le> Suc t + 2" "ilog B 2 = Suc t"
  shows "attempt ilog (2 ^ k) B (2 # ps) a = None"
proof (cases "even a")
  case True
  then show ?thesis using pow2_stuck[OF assms(1)] by blast
next
  case False
  let ?num = "(2::int) ^ k"
  have "(2::int) ^ 1 \<le> 2 ^ k" using assms(1) by (intro power_increasing) auto
  then have num2: "2 \<le> ?num" by simp
  have "?num dvd 2 ^ (Suc t + 2)" using assms(2) by (rule le_imp_power_dvd)
  then have "?num dvd a ^ (2 ^ Suc t) - 1"
    using odd_power_two_minus_1[OF False, of t] by (rule dvd_trans)
  then have "a ^ (2 ^ Suc t) mod ?num = 1 mod ?num"
    using mod_eq_dvd_iff[of "a ^ (2 ^ Suc t)" ?num 1] by blast
  also have "\<dots> = 1" using num2 by (intro mod_pos_pos_trivial) auto
  finally have "a ^ (2 ^ Suc t) mod ?num = 1" .
  then have g: "fold_in ilog ?num B 2 a = 1"
    by (simp only: fold_in_two assms(3))
  have "attempt ilog ?num B ps 1 = None" using pow2_stuck[OF assms(1)] by blast
  with g show ?thesis by (simp add: Let_def)
qed

lemma search_all_fail:
  "(\<And>a. attempt ilog num B (generate_primes B) a = None) \<Longrightarrow>
     search ilog randint num B n k = (None, k + n)"
  by (induction n arbitrary: k) simp_all

lemma generate_primes_head: "2 \<le> B \<Longrightarrow> \<exists>rest. generate_primes B = 2 # rest"
  by (simp add: generate_primes_def upto_rec1)

lemma pow2_all_fail:
  assumes "1 \<le> k" "k \<le> Suc t + 2" "ilog B 2 = Suc t" "2 \<le> B"
  shows "fst (pollard_rho ilog randint (2 ^ k) B step attempts) = Inr None"
proof -
  from generate_primes_head[OF assms(4)] obtain rest where r: "generate_primes B = 2 # rest" ..
  have "attempt ilog (2 ^ k) B (generate_primes B) a = None" for a
    unfolding r using assms(1,2,3) by (rule pow2_first_step)
  then have "search ilog randint (2 ^ k) B (nat attempts) 0 = (None, 0 + nat attempts)"
    by (rule search_all_fail)
  moreover have "(2::int) ^ 1 \<le> 2 ^ k" using assms(1) by (intro power_increasing) auto
  ultimately show ?thesis by (simp add: pollard_rho_def)
qed

lemma power_of_two:
  assumes "2 \<le> num" "\<not> has_odd_divisor num"
  shows "\<exists>k. 1 \<le> k \<and> num = 2 ^ k"
proof -
  from split_power[of 2 num] assms(1) obtain k and m :: int
    where km: "num = 2 ^ k * m" "\<not> 2 dvd m" "1 \<le> m" by auto
  have "m dvd num" using km(1) by simp
  with assms km(2) have "\<not> 1 < m" by (auto simp: has_odd_divisor_iff)
  with km(3) have "m = 1" by simp
  with km(1) have n: "num = 2 ^ k" by simp
  have "k \<noteq> 0" using n assms(1) by (cases k) auto
  with n show ?thesis by (intro exI[where x=k]) simp
qed

lemma first_step_draw:
  assumes "composite num"
    and "has_odd_divisor num \<or> s = 0 \<or> 4 * 2 ^ s < num"
  shows "\<exists>a. 2 \<le> a \<and> a \<le> num \<and> gcd (a ^ (2 ^ s) mod num - 1) num \<noteq> 1
            \<and> gcd (a ^ (2 ^ s) mod num - 1) num \<noteq> num"
proof (cases "has_odd_divisor num")
  case True
  from assms(1) have "0 < num" by (auto simp: composite_iff)
  with True obtain c where "odd c" "1 < c" "c dvd num" by (auto simp: has_odd_divisor_iff)
  with assms(1) show ?thesis by (rule draw_exists)
next
  case False
  from assms(1) have num3: "3 \<le> num" by (auto simp: composite_iff)
  with False obtain k where k: "1 \<le> k" "num = 2 ^ k" using power_of_two[of num] by auto
  have "k \<noteq> 1" using k(2) assms(1) by (auto simp: composite_iff)
  with k(1) have k2: "2 \<le> k" by simp
  have c: "s = 0 \<or> s + 2 < k"
  proof (cases "s = 0")
    case True
    then show ?thesis by simp
  next
    case False
    with assms(2) \<open>\<not> has_odd_divisor num\<close> have "4 * 2 ^ s < num" by simp
    then have "(2::int) ^ (s + 2) < 2 ^ k" by (simp add: k(2) power_add)
    then have "s + 2 < k" by (rule power_less_imp_less_exp[rotated]) simp
    then show ?thesis by simp
  qed
  have "(2::int) ^ 2 \<le> 2 ^ k" using k2 by (intro power_increasing) auto
  then have "3 \<le> num" using k(2) by simp
  with pow2_draw_three[OF k2 c] show ?thesis
    unfolding k(2)[symmetric] by (intro exI[where x=3]) simp
qed

lemma no_draw_power_of_two:
  assumes "2 \<le> num" "2 \<le> B"
    and "\<not> (has_odd_divisor num \<or> ilog B 2 = 0 \<or> 4 * 2 ^ ilog B 2 < num)"
  shows "fst (pollard_rho ilog randint num B step attempts) = Inr None"
proof -
  from assms(1,3) obtain k where k: "1 \<le> k" "num = 2 ^ k" using power_of_two[of num] by auto
  from assms(3) obtain t where t: "ilog B 2 = Suc t" by (cases "ilog B 2") auto
  from assms(3) have "num \<le> 4 * 2 ^ ilog B 2" by simp
  then have "(2::int) ^ k \<le> 2 ^ (Suc t + 2)" by (simp add: k(2) t power_add)
  then have "k \<le> Suc t + 2" by (rule power_le_imp_le_exp[rotated]) simp
  with k(1) have "fst (pollard_rho ilog randint (2 ^ k) B step attempts) = Inr None"
    using t assms(2) by (rule pow2_all_fail)
  then show ?thesis by (simp only: k(2))
qed

text \<open>
  C1, amended. Let \<open>num\<close> be composite with a prime factor \<open>p\<close> such that \<open>p - 1\<close> is
  \<open>B\<close>-smooth, let \<open>B \<ge> 2\<close> and \<open>attempts \<ge> 1\<close>, and let \<open>s = ilog B 2\<close> be the exponent the
  code computes for the prime 2. A sequence of draws, each in \<open>[2, num]\<close>, under which the
  function returns a divisor \<open>d\<close> with \<open>1 < d < num\<close> and \<open>num mod d = 0\<close> exists if and only
  if \<open>num\<close> has an odd divisor above 1 (it is not a power of two), or \<open>s = 0\<close>, or
  \<open>4 * 2 ^ s < num\<close>.

  Without the provisos the statement fails, in three ways (the counterexample below):
  for a power of two \<open>num \<le> 4 * 2 ^ s\<close> (\<open>num = 4\<close>, \<open>B = 2\<close>, any \<open>s \<ge> 1\<close>: a square is 0 or 1
  modulo 4, so the gcd is 1 or 4); for \<open>B < 2\<close> (\<open>num = 6\<close>, \<open>B = 1\<close>: no prime is generated);
  and for \<open>attempts = 0\<close> (\<open>num = 15\<close>, \<open>B = 2\<close>).
\<close>

theorem find_factor_some_draws:
  assumes "composite num" "is_prime p" "p dvd num" "B_smooth B (p - 1)"
    and "2 \<le> B" "1 \<le> attempts"
  shows "(\<exists>randint d. (\<forall>k. 2 \<le> randint k \<and> randint k \<le> num)
            \<and> fst (pollard_rho ilog randint num B step attempts) = Inr (Some d)
            \<and> 1 < d \<and> d < num \<and> num mod d = 0)
       \<longleftrightarrow> (has_odd_divisor num \<or> ilog B 2 = 0 \<or> 4 * 2 ^ ilog B 2 < num)"
    (is "?draws \<longleftrightarrow> ?cond")
proof
  from assms(1) have num: "2 \<le> num" by (auto simp: composite_iff)
  show ?cond if ?draws
  proof (rule ccontr)
    assume "\<not> ?cond"
    then have "fst (pollard_rho ilog randint num B step attempts) = Inr None" for randint
      by (rule no_draw_power_of_two[OF num assms(5)])
    with that show False by auto
  qed
  show ?draws if ?cond
  proof -
    from first_step_draw[OF assms(1) that] obtain a
      where a: "2 \<le> a" "a \<le> num"
        and g1: "gcd (fold_in ilog num B 2 a - 1) num \<noteq> 1"
        and g2: "gcd (fold_in ilog num B 2 a - 1) num \<noteq> num"
      unfolding fold_in_two by blast
    define d where "d = gcd (fold_in ilog num B 2 a - 1) num"
    have att: "attempt ilog num B (generate_primes B) a = Some d"
      unfolding d_def by (rule attempt_first_step[OF assms(5) g1 g2])
    obtain n where n: "nat attempts = Suc n" using assms(6) by (cases "nat attempts") auto
    have "search ilog (\<lambda>_. a) num B (nat attempts) 0 = (Some d, Suc 0)"
      unfolding n using att by simp
    then have res: "fst (pollard_rho ilog (\<lambda>_. a) num B step attempts) = Inr (Some d)"
      using num by (simp add: pollard_rho_def)
    have "d dvd num \<and> 1 < d \<and> d < num \<and> num mod d = 0"
      by (rule gcd_proper[OF num d_def]) (use g1 g2 d_def in auto)
    with res a show ?thesis by (intro exI[where x="\<lambda>_. a"] exI[where x=d]) simp
  qed
qed

theorem find_factor_some_draws_counterexample:
  "composite 4 \<and> is_prime 2 \<and> (2::int) dvd 4 \<and> B_smooth 2 (2 - 1)
   \<and> (\<forall>s randint step attempts.
         fst (pollard_rho (\<lambda>B prime. Suc s) randint 4 2 step attempts) = Inr None)
   \<and> composite 6 \<and> (2::int) dvd 6 \<and> B_smooth 1 (2 - 1)
   \<and> (\<forall>ilog randint step attempts. fst (pollard_rho ilog randint 6 1 step attempts) = Inr None)
   \<and> composite 15 \<and> is_prime 3 \<and> (3::int) dvd 15 \<and> B_smooth 2 (3 - 1)
   \<and> (\<forall>ilog randint step. fst (pollard_rho ilog randint 15 2 step 0) = Inr None)"
proof -
  have a1: "composite 4" "is_prime 2" "B_smooth 2 (2 - 1)" by code_simp+
  have a2: "fst (pollard_rho (\<lambda>B prime. Suc s) randint 4 2 step attempts) = Inr None"
    for s randint step attempts
    using pow2_all_fail[of 2 s "\<lambda>B prime. Suc s" 2 randint step attempts] by simp
  have b1: "composite 6" "B_smooth 1 (2 - 1)" by code_simp+
  have e: "generate_primes 1 = []" by code_simp
  have b2: "fst (pollard_rho ilog randint 6 1 step attempts) = Inr None"
    for ilog randint step attempts
    by (simp add: pollard_rho_def search_no_primes[OF e])
  have c1: "composite 15" "is_prime 3" "B_smooth 2 (3 - 1)" by code_simp+
  have c2: "fst (pollard_rho ilog randint 15 2 step 0) = Inr None" for ilog randint step
    by (simp add: pollard_rho_def)
  from a1 a2 b1 b2 c1 c2 show ?thesis by simp
qed

theorem find_factor_some_draws_witness:
  "composite 16 \<and> is_prime 2 \<and> (2::int) dvd 16 \<and> B_smooth 2 (2 - 1)
   \<and> (2::int) \<le> 2 \<and> (1::int) \<le> 1 \<and> (4::int) * 2 ^ 1 < 16
   \<and> fst (pollard_rho (\<lambda>B prime. 1) (\<lambda>_. 3) 16 2 1 1) = Inr (Some 8)
   \<and> (\<exists>randint d. (\<forall>k. 2 \<le> randint k \<and> randint k \<le> 16)
         \<and> fst (pollard_rho (\<lambda>B prime. 1) randint 16 2 1 1) = Inr (Some d)
         \<and> 1 < d \<and> d < 16 \<and> 16 mod d = 0)
   \<and> composite 8051 \<and> is_prime 97 \<and> (97::int) dvd 8051 \<and> B_smooth 10 (97 - 1)
   \<and> (2::int) \<le> 10 \<and> (1::int) \<le> 5 \<and> has_odd_divisor 8051
   \<and> (\<exists>randint d. (\<forall>k. 2 \<le> randint k \<and> randint k \<le> 8051)
         \<and> fst (pollard_rho (\<lambda>B p. if p = 2 then 3 else if p = 3 then 2 else 1)
                  randint 8051 10 1 5) = Inr (Some d)
         \<and> 1 < d \<and> d < 8051 \<and> 8051 mod d = 0)"
proof -
  have h1: "composite 16" by code_simp
  have h2: "is_prime 2" by code_simp
  have h3: "(2::int) dvd 16" by simp
  have h4: "B_smooth 2 (2 - 1)" by code_simp
  have h5: "(2::int) \<le> 2" "(1::int) \<le> 1" by simp_all
  have c: "(4::int) * 2 ^ 1 < 16" by simp
  have r: "fst (pollard_rho (\<lambda>B prime. 1) (\<lambda>_. 3) 16 2 1 1) = Inr (Some 8)" by code_simp
  note iff16 = find_factor_some_draws[OF h1 h2 h3 h4 h5, of "\<lambda>B prime. 1" 1]
  have ex16: "\<exists>randint d. (\<forall>k. 2 \<le> randint k \<and> randint k \<le> 16)
         \<and> fst (pollard_rho (\<lambda>B prime. 1) randint 16 2 1 1) = Inr (Some d)
         \<and> 1 < d \<and> d < 16 \<and> 16 mod d = 0"
    by (rule iffD2[OF iff16]) (use c in simp)
  have k1: "composite 8051" unfolding composite_iff by (intro exI[where x=83]) simp
  have k2: "is_prime 97" by code_simp
  have k3: "(97::int) dvd 8051" by simp
  have k4: "B_smooth 10 (97 - 1)" by code_simp
  have k5: "(2::int) \<le> 10" "(1::int) \<le> 5" by simp_all
  have k6: "has_odd_divisor 8051"
    by (subst has_odd_divisor_iff) (auto intro!: exI[where x=83])
  note iff8051 = find_factor_some_draws[OF k1 k2 k3 k4 k5,
      of "\<lambda>B p. if p = 2 then 3 else if p = 3 then 2 else 1" 1]
  have ex8051: "\<exists>randint d. (\<forall>k. 2 \<le> randint k \<and> randint k \<le> 8051)
         \<and> fst (pollard_rho (\<lambda>B p. if p = 2 then 3 else if p = 3 then 2 else 1)
                  randint 8051 10 1 5) = Inr (Some d)
         \<and> 1 < d \<and> d < 8051 \<and> 8051 mod d = 0"
    by (rule iffD2[OF iff8051]) (use k6 in simp)
  from h1 h2 h3 h4 h5 c r ex16 k1 k2 k3 k4 k5 k6 ex8051 show ?thesis by (intro conjI)
qed


subsection \<open>The exponent at a power boundary\<close>

text \<open>
  C3 asks that the exponent \<open>s\<close> computed for a prime \<open>p\<close> be the largest integer with
  \<open>p ^ s \<le> B\<close>. The code takes \<^verbatim>\<open>s = int(log(B, prime))\<close> in double arithmetic, with no
  adjustment afterwards. For \<open>B = 243\<close> and \<open>prime = 3\<close> the quotient of the two double
  logarithms is \<^verbatim>\<open>4.999999999999999\<close>, which truncates to 4; that value enters the model as
  the parameter \<open>ilog\<close>. The step then raises the guess to the power \<open>3 ^ 4 = 81\<close> although
  \<open>3 ^ 5 = 243 \<le> B\<close>, and the new guess differs from the one the exponent 243 gives (here
  for \<open>num = 8051\<close> and the guess 2).
\<close>

theorem exponent_at_power_boundary:
  "fold_in (\<lambda>B prime. 4) 8051 243 3 2 = 2 ^ 81 mod 8051
   \<and> (3::int) ^ 5 \<le> 243
   \<and> fold_in (\<lambda>B prime. 4) 8051 243 3 2 \<noteq> 2 ^ 243 mod 8051"
  by (simp add: fold_in_def Let_def)

end
